theory Spec2Isabelle
  imports Main "HOL-Library.Word"
begin

section \<open>Named counters over a relational table\<close>

text \<open>
  The Go package \<open>counter\<close> (\<open>internal/counter.go\<close>) has one persisted type, \<open>Counter\<close>, and
  three methods on the empty struct \<open>CounterOperator\<close>: \<open>CreateCounter\<close>, \<open>Next\<close> and
  \<open>DeleteCounter\<close>. Each method takes a \<open>context.Context\<close>, which the body never uses, and
  a handle \<open>tx\<close> on the store. The model passes the table behind \<open>tx\<close> explicitly and returns
  it updated; the receiver and the context are dropped.
\<close>

subsection \<open>Data\<close>

text \<open>
  \<^verbatim>\<open>
  type Counter struct {
      gorm.Model
      Name  string `gorm:"not null;unique"`
      Value uint32 `gorm:"not null"`
  }
  \<close>
  The embedded \<open>gorm.Model\<close> contributes the primary key \<open>ID\<close> (a Go \<open>uint\<close>, assigned by
  the store on insert; a \<open>nat\<close> here), the soft-delete marker \<open>DeletedAt\<close> (a nullable
  timestamp; only whether it is set is kept, as \<open>DeletedAt\<close> being \<open>True\<close>) and the
  timestamps \<open>CreatedAt\<close> and \<open>UpdatedAt\<close>, which no operation reads and which are left out.
  \<open>Value\<close> is a \<open>uint32\<close>: a 32-bit word, whose addition wraps.
\<close>

record Counter =
  ID :: nat
  DeletedAt :: bool
  Name :: string
  Value :: "32 word"

text \<open>
  The table \<open>counters\<close>: its rows in primary-key order. A row is never removed (deletion
  is the soft delete of \<open>gorm.Model\<close>), and an insert appends a row with a fresh key.
\<close>

type_synonym table = "Counter list"

text \<open>
  The errors the store hands back, under the names of the specification's taxonomy:
  \<open>NotFound\<close> is gorm's \<open>ErrRecordNotFound\<close>, \<open>DuplicateName\<close> is the violation of the
  unique index on \<open>name\<close>. The operator returns them unmodified.
\<close>

datatype error = NotFound | DuplicateName

subsection \<open>The store\<close>

text \<open>
  Modelled from the spec: the store behind \<open>tx\<close> (the library gorm over one SQL table) is
  not among the sources. Its four statements follow the specification's collaborator
  interface (an insert, a read by a name predicate with a row lock, an update, a delete)
  with the deletion strategy that its design notes give as the reference behaviour:
  a deleted counter is marked, not removed, and reads and updates skip marked rows. That
  is what embedding \<open>gorm.Model\<close> in the struct selects. Whether the unique constraint on
  the name counts marked rows is left open by the specification and settled by the
  source: the tag \<open>unique\<close> on \<open>Name\<close> declares a plain unique index on the column, which
  covers every row of the table.
\<close>

primrec max_id :: "table \<Rightarrow> nat" where
  "max_id [] = 0"
| "max_id (r # rs) = max (ID r) (max_id rs)"

text \<open>
  Modelled from the spec: \<open>tx.Create(&counter)\<close>, an insert. The unique index on \<open>name\<close>
  rejects a name that any row carries, soft-deleted rows included, and the table stays as
  it was; otherwise the row is stored under a fresh key of the auto-increment column,
  which is written back to the struct. The model takes the successor of the largest key
  in the table; no property below depends on which larger key it is.
\<close>

definition tx_Create :: "table \<Rightarrow> Counter \<Rightarrow> (error + Counter) \<times> table" where
  "tx_Create rows c =
     (if \<exists>r \<in> set rows. Name r = Name c then (Inl DuplicateName, rows)
      else (let c' = c\<lparr>ID := Suc (max_id rows)\<rparr> in (Inr c', rows @ [c'])))"

text \<open>
  Modelled from the spec: \<open>tx.Clauses(clause.Locking{Strength: "UPDATE"}).Where("name = ?",
  name).First(&counter)\<close>, the read
  \<^verbatim>\<open>SELECT * FROM counters WHERE name = ? AND deleted_at IS NULL ORDER BY id LIMIT 1 FOR UPDATE\<close>.
  It fails with \<open>NotFound\<close> when no row matches. The row lock has no effect on a single
  caller.
\<close>

definition tx_First :: "table \<Rightarrow> string \<Rightarrow> error + Counter" where
  "tx_First rows name =
     (case find (\<lambda>r. Name r = name \<and> \<not> DeletedAt r) rows of
        None \<Rightarrow> Inl NotFound
      | Some r \<Rightarrow> Inr r)"

text \<open>
  Modelled from the spec: \<open>tx.Save(&counter)\<close>. A record without primary key (\<open>ID\<close> zero) is
  inserted; otherwise all its fields are written to the row of its key,
  \<^verbatim>\<open>UPDATE counters SET ... WHERE deleted_at IS NULL AND id = ?\<close>.
  What the library does when that update matches no row is not modelled: \<open>Next\<close> saves the
  row that its read has just returned, which the update matches.
\<close>

definition tx_Save :: "table \<Rightarrow> Counter \<Rightarrow> (error + Counter) \<times> table" where
  "tx_Save rows c =
     (if ID c = 0 then tx_Create rows c
      else (Inr c, map (\<lambda>r. if ID r = ID c \<and> \<not> DeletedAt r then c else r) rows))"

text \<open>
  Modelled from the spec: \<open>tx.Where("name = ?", name).Delete(&Counter{})\<close>, which for a
  model with \<open>DeletedAt\<close> is
  \<^verbatim>\<open>UPDATE counters SET deleted_at = now WHERE name = ? AND deleted_at IS NULL\<close>.
  Matching no row is not an error.
\<close>

definition tx_Delete :: "table \<Rightarrow> string \<Rightarrow> error option \<times> table" where
  "tx_Delete rows name =
     (None, map (\<lambda>r. if Name r = name \<and> \<not> DeletedAt r then r\<lparr>DeletedAt := True\<rparr> else r) rows)"

subsection \<open>The operator\<close>

text \<open>
  \<^verbatim>\<open>
  func (co CounterOperator) CreateCounter(ctx context.Context, tx *gorm.DB, name string) (Counter, error) {
      counter := Counter{Name: name, Value: 0}
      if err := tx.Create(&counter).Error; err != nil {
          return Counter{}, err
      }
      return counter, nil
  }
  \<close>
  A Go result \<open>(Counter{}, err)\<close> is \<open>Inl err\<close>, a result \<open>(counter, nil)\<close> is \<open>Inr counter\<close>.
\<close>

definition CreateCounter :: "table \<Rightarrow> string \<Rightarrow> (error + Counter) \<times> table" where
  "CreateCounter rows name =
     (let counter = \<lparr>ID = 0, DeletedAt = False, Name = name, Value = 0\<rparr> in
      case tx_Create rows counter of
        (Inl err, rows') \<Rightarrow> (Inl err, rows')
      | (Inr counter', rows') \<Rightarrow> (Inr counter', rows'))"

text \<open>
  \<^verbatim>\<open>
  func (co CounterOperator) Next(ctx context.Context, tx *gorm.DB, name string) (Counter, error) {
      var counter Counter
      if err := tx.Clauses(clause.Locking{Strength: "UPDATE"}).Where("name = ?", name).First(&counter).Error; err != nil {
          return Counter{}, err
      }
      counter.Value++
      if err := tx.Save(&counter).Error; err != nil {
          return Counter{}, err
      }
      return counter, nil
  }
  \<close>
\<close>

definition Next :: "table \<Rightarrow> string \<Rightarrow> (error + Counter) \<times> table" where
  "Next rows name =
     (case tx_First rows name of
        Inl err \<Rightarrow> (Inl err, rows)
      | Inr counter \<Rightarrow>
          (let counter' = counter\<lparr>Value := Value counter + 1\<rparr> in
           case tx_Save rows counter' of
             (Inl err, rows') \<Rightarrow> (Inl err, rows')
           | (Inr counter'', rows') \<Rightarrow> (Inr counter'', rows')))"

text \<open>
  \<^verbatim>\<open>
  func (co CounterOperator) DeleteCounter(ctx context.Context, tx *gorm.DB, name string) error {
      return tx.Where("name = ?", name).Delete(&Counter{}).Error
  }
  \<close>
\<close>

definition DeleteCounter :: "table \<Rightarrow> string \<Rightarrow> error option \<times> table" where
  "DeleteCounter rows name = tx_Delete rows name"

subsection \<open>Sequences of calls\<close>

text \<open>
  A caller's sequence of calls on one store, each applied to the table the previous one
  left (every call committed): \<open>exec\<close> keeps the table and drops the result.
\<close>

datatype call = CreateCall string | NextCall string | DeleteCall string

fun exec :: "call \<Rightarrow> table \<Rightarrow> table" where
  "exec (CreateCall n) rows = snd (CreateCounter rows n)"
| "exec (NextCall n) rows = snd (Next rows n)"
| "exec (DeleteCall n) rows = snd (DeleteCounter rows n)"

definition run :: "call list \<Rightarrow> table \<Rightarrow> table" where
  "run cs rows = fold exec cs rows"

text \<open>\<open>Next_seq k rows name\<close>: the results of \<open>k\<close> successive calls of \<open>Next\<close>, in call order,
  and the table after the last.\<close>

fun Next_seq :: "nat \<Rightarrow> table \<Rightarrow> string \<Rightarrow> (error + Counter) list \<times> table" where
  "Next_seq 0 rows name = ([], rows)"
| "Next_seq (Suc k) rows name =
     (case Next rows name of
        (res, rows') \<Rightarrow> (case Next_seq k rows' name of (ress, rows'') \<Rightarrow> (res # ress, rows'')))"

text \<open>What a caller sees of a list of results: the error, or the returned counter's value as
  a natural number.\<close>

definition values_of :: "(error + Counter) list \<Rightarrow> (error + nat) list" where
  "values_of ress = map (map_sum id (\<lambda>c. unat (Value c))) ress"

subsection \<open>Tables the store can hold\<close>

text \<open>
  The constraints of the schema: primary keys are positive and strictly ascending along
  the table, and no two rows (deleted or not) share a name. The empty table satisfies
  them, and every operation preserves them.
\<close>

definition wf_table :: "table \<Rightarrow> bool" where
  "wf_table rows \<longleftrightarrow> sorted_wrt (<) (0 # map ID rows) \<and> distinct (map Name rows)"

subsection \<open>Example tables\<close>

text \<open>The table holding the single active counter \<open>n0\<close> with value \<open>v\<close>.\<close>

definition n0_at :: "32 word \<Rightarrow> table" where
  "n0_at v = [\<lparr>ID = 1, DeletedAt = False, Name = ''n0'', Value = v\<rparr>]"

text \<open>The table after \<open>n0\<close> was created and then deleted: its row is kept, marked.\<close>

definition n0_deleted :: table where
  "n0_deleted = [\<lparr>ID = 1, DeletedAt = True, Name = ''n0'', Value = 0\<rparr>]"

text \<open>The table holding the two active counters \<open>n0\<close> and \<open>n1\<close>.\<close>

definition n0_n1 :: table where
  "n0_n1 = [\<lparr>ID = 1, DeletedAt = False, Name = ''n0'', Value = 3\<rparr>,
            \<lparr>ID = 2, DeletedAt = False, Name = ''n1'', Value = 8\<rparr>]"

section \<open>Properties\<close>

subsection \<open>Reading the store and the schema's constraints\<close>

lemma max_id_ge: "r \<in> set rows \<Longrightarrow> ID r \<le> max_id rows"
  by (induction rows) auto

lemma wf_table_Nil: "wf_table []"
  by (simp add: wf_table_def)

lemma wf_table_ID_pos: "wf_table rows \<Longrightarrow> r \<in> set rows \<Longrightarrow> 0 < ID r"
  by (auto simp: wf_table_def)

lemma wf_table_ID_inj:
  assumes "wf_table rows" "r \<in> set rows" "r' \<in> set rows" "ID r = ID r'"
  shows "r = r'"
proof -
  from assms(1) have "distinct (map ID rows)"
    by (simp add: wf_table_def strict_sorted_iff)
  then have "inj_on ID (set rows)"
    by (simp add: distinct_map)
  with assms(2-4) show ?thesis
    by (auto dest: inj_onD)
qed

lemma wf_table_Name_inj:
  assumes "wf_table rows" "r \<in> set rows" "r' \<in> set rows" "Name r = Name r'"
  shows "r = r'"
proof -
  from assms(1) have "inj_on Name (set rows)"
    by (simp add: wf_table_def distinct_map)
  then show ?thesis
    using assms(2-4) by (auto dest: inj_onD)
qed

lemma tx_First_Inr:
  "tx_First rows n = Inr c \<Longrightarrow> c \<in> set rows \<and> Name c = n \<and> \<not> DeletedAt c"
  by (auto simp: tx_First_def find_Some_iff split: option.splits)

lemma tx_First_Inl:
  "tx_First rows n = Inl e \<longleftrightarrow> e = NotFound \<and> (\<forall>r \<in> set rows. Name r = n \<longrightarrow> DeletedAt r)"
proof (cases "find (\<lambda>r. Name r = n \<and> \<not> DeletedAt r) rows")
  case None
  then have "\<forall>r \<in> set rows. Name r = n \<longrightarrow> DeletedAt r"
    by (auto simp: find_None_iff)
  then show ?thesis
    by (auto simp: tx_First_def None)
next
  case (Some r)
  then have "r \<in> set rows \<and> Name r = n \<and> \<not> DeletedAt r"
    by (auto simp: find_Some_iff)
  with Some show ?thesis
    by (auto simp: tx_First_def)
qed

lemma tx_Delete_rows:
  "snd (tx_Delete rows n) = map (\<lambda>r. if Name r = n then r\<lparr>DeletedAt := True\<rparr> else r) rows"
  by (simp add: tx_Delete_def)

lemma Next_missing: "tx_First rows n = Inl e \<Longrightarrow> Next rows n = (Inl e, rows)"
  by (simp add: Next_def)

lemma Next_active:
  assumes "wf_table rows" "tx_First rows n = Inr c"
  shows "Next rows n =
    (Inr (c\<lparr>Value := Value c + 1\<rparr>),
     map (\<lambda>r. if Name r = n then r\<lparr>Value := Value r + 1\<rparr> else r) rows)"
proof -
  from assms(2) have c: "c \<in> set rows" "Name c = n" "\<not> DeletedAt c"
    by (simp_all add: tx_First_Inr)
  from assms(1) c(1) have pos: "ID c \<noteq> 0"
    by (auto dest: wf_table_ID_pos)
  have "(if ID r = ID c \<and> \<not> DeletedAt r then c\<lparr>Value := Value c + 1\<rparr> else r) =
        (if Name r = n then r\<lparr>Value := Value r + 1\<rparr> else r)" if "r \<in> set rows" for r
  proof (cases "r = c")
    case True
    with c show ?thesis by simp
  next
    case False
    with assms(1) c(1) that have "ID r \<noteq> ID c" "Name r \<noteq> Name c"
      by (auto dest: wf_table_ID_inj wf_table_Name_inj)
    with c(2) show ?thesis by simp
  qed
  then have "map (\<lambda>r. if ID r = ID c \<and> \<not> DeletedAt r then c\<lparr>Value := Value c + 1\<rparr> else r) rows =
      map (\<lambda>r. if Name r = n then r\<lparr>Value := Value r + 1\<rparr> else r) rows"
    by (simp cong: map_cong)
  with assms(2) pos show ?thesis
    by (simp add: Next_def tx_Save_def Let_def)
qed

lemma CreateCounter_eq:
  "CreateCounter rows n =
     (if n \<in> Name ` set rows then (Inl DuplicateName, rows)
      else (Inr \<lparr>ID = Suc (max_id rows), DeletedAt = False, Name = n, Value = 0\<rparr>,
            rows @ [\<lparr>ID = Suc (max_id rows), DeletedAt = False, Name = n, Value = 0\<rparr>]))"
  by (auto simp: CreateCounter_def tx_Create_def Let_def)

lemma tx_First_wf_iff:
  assumes "wf_table rows"
  shows "tx_First rows n = Inr c \<longleftrightarrow> c \<in> set rows \<and> Name c = n \<and> \<not> DeletedAt c"
proof
  assume "tx_First rows n = Inr c"
  then show "c \<in> set rows \<and> Name c = n \<and> \<not> DeletedAt c"
    by (rule tx_First_Inr)
next
  assume c: "c \<in> set rows \<and> Name c = n \<and> \<not> DeletedAt c"
  show "tx_First rows n = Inr c"
  proof (cases "tx_First rows n")
    case (Inl e)
    with c show ?thesis
      by (auto simp: tx_First_Inl)
  next
    case (Inr r)
    then have "r \<in> set rows \<and> Name r = n"
      by (simp add: tx_First_Inr)
    with assms c have "r = c"
      by (auto dest: wf_table_Name_inj)
    with Inr show ?thesis by simp
  qed
qed

lemma wf_table_map:
  assumes "wf_table rows" and "\<And>r. r \<in> set rows \<Longrightarrow> ID (f r) = ID r \<and> Name (f r) = Name r"
  shows "wf_table (map f rows)"
proof -
  from assms(2) have ids: "map ID (map f rows) = map ID rows"
    and names: "map Name (map f rows) = map Name rows"
    by simp_all
  from assms(1) show ?thesis
    unfolding wf_table_def ids names .
qed

lemma wf_table_CreateCounter: "wf_table rows \<Longrightarrow> wf_table (snd (CreateCounter rows n))"
  by (auto simp: CreateCounter_eq wf_table_def sorted_wrt_append le_imp_less_Suc max_id_ge)

lemma wf_table_Next:
  assumes "wf_table rows"
  shows "wf_table (snd (Next rows n))"
proof (cases "tx_First rows n")
  case (Inl e)
  with assms show ?thesis
    by (simp add: Next_missing)
next
  case (Inr c)
  with assms show ?thesis
    by (simp add: Next_active wf_table_map)
qed

lemma wf_table_DeleteCounter: "wf_table rows \<Longrightarrow> wf_table (snd (DeleteCounter rows n))"
  by (simp add: DeleteCounter_def tx_Delete_rows wf_table_map)

lemma wf_table_exec: "wf_table rows \<Longrightarrow> wf_table (exec c rows)"
  by (cases c) (simp_all add: wf_table_CreateCounter wf_table_Next wf_table_DeleteCounter)

lemma wf_table_run: "wf_table rows \<Longrightarrow> wf_table (run cs rows)"
  unfolding run_def by (induction cs arbitrary: rows) (simp_all add: wf_table_exec)

text \<open>Every table that calls of the operator produce from the empty table satisfies the
  constraints.\<close>

lemma wf_table_reachable: "wf_table (run cs [])"
  by (rule wf_table_run) (rule wf_table_Nil)

text \<open>So do the example tables.\<close>

lemma wf_table_n0_at: "wf_table (n0_at v)"
  by (simp add: n0_at_def wf_table_def)

lemma wf_table_n0_deleted: "wf_table n0_deleted"
  by (simp add: n0_deleted_def wf_table_def)

lemma wf_table_n0_n1: "wf_table n0_n1"
  by (simp add: n0_n1_def wf_table_def)

lemma filter_Name_unique:
  "distinct (map Name rows) \<Longrightarrow> c \<in> set rows \<Longrightarrow> filter (\<lambda>r. Name r = Name c) rows = [c]"
proof (induction rows)
  case Nil
  then show ?case by simp
next
  case (Cons r rows)
  show ?case
  proof (cases "r = c")
    case True
    from Cons.prems have "Name r \<notin> Name ` set rows"
      by simp
    with True show ?thesis
      by (auto simp: filter_empty_conv image_iff)
  next
    case False
    with Cons show ?thesis
      by auto
  qed
qed

lemma Next_persisted:
  assumes "wf_table rows" and "tx_First rows n = Inr c"
  shows "fst (Next rows n) = Inr (c\<lparr>Value := Value c + 1\<rparr>)"
    and "tx_First (snd (Next rows n)) n = Inr (c\<lparr>Value := Value c + 1\<rparr>)"
    and "filter (\<lambda>r. Name r = n) (snd (Next rows n)) = [c\<lparr>Value := Value c + 1\<rparr>]"
proof -
  let ?c' = "c\<lparr>Value := Value c + 1\<rparr>"
  let ?f = "\<lambda>r. if Name r = n then r\<lparr>Value := Value r + 1\<rparr> else r"
  from assms(2) have c: "c \<in> set rows" "Name c = n" "\<not> DeletedAt c"
    by (simp_all add: tx_First_Inr)
  from assms have nxt: "Next rows n = (Inr ?c', map ?f rows)"
    by (rule Next_active)
  from assms(1) have wf': "wf_table (snd (Next rows n))"
    by (rule wf_table_Next)
  from c have mem: "?c' \<in> set (map ?f rows)"
    by (auto simp: image_iff intro!: bexI [of _ c])
  from nxt show "fst (Next rows n) = Inr ?c'"
    by simp
  from c wf' mem show "tx_First (snd (Next rows n)) n = Inr ?c'"
    by (simp add: tx_First_wf_iff nxt)
  from wf' have "distinct (map Name (snd (Next rows n)))"
    by (simp add: wf_table_def)
  with mem have "filter (\<lambda>r. Name r = Name ?c') (snd (Next rows n)) = [?c']"
    by (intro filter_Name_unique) (simp_all add: nxt)
  with c(2) show "filter (\<lambda>r. Name r = n) (snd (Next rows n)) = [?c']"
    by simp
qed

lemma unat_Value_succ:
  "unat (v :: 32 word) < 2 ^ 32 - 1 \<Longrightarrow> unat (v + 1) = unat v + 1"
  by (simp add: unat_word_ariths)

subsection \<open>Next\<close>

text \<open>
  C1: for every active counter named \<open>n\<close> with persisted value \<open>v\<close> (the row \<open>c\<close> that the
  read by name returns), \<open>Next\<close> returns that counter with value \<open>v + 1\<close>, and after the call
  the only row named \<open>n\<close> is that counter with value \<open>v + 1\<close>, which a read by name returns.
  The sum is the \<open>uint32\<close> sum of \<open>counter.Value++\<close>; below \<open>2^32 - 1\<close> it is the successor
  of \<open>v\<close> as a natural number.
\<close>

theorem Next_increments:
  assumes "wf_table rows" and "tx_First rows n = Inr c"
  shows "fst (Next rows n) = Inr (c\<lparr>Value := Value c + 1\<rparr>)
    \<and> tx_First (snd (Next rows n)) n = Inr (c\<lparr>Value := Value c + 1\<rparr>)
    \<and> filter (\<lambda>r. Name r = n) (snd (Next rows n)) = [c\<lparr>Value := Value c + 1\<rparr>]
    \<and> (unat (Value c) < 2 ^ 32 - 1 \<longrightarrow> unat (Value c + 1) = unat (Value c) + 1)"
  using Next_persisted [OF assms] unat_Value_succ [of "Value c"] by blast

theorem Next_increments_witness:
  "wf_table (n0_at 41)
   \<and> tx_First (n0_at 41) ''n0'' = Inr \<lparr>ID = 1, DeletedAt = False, Name = ''n0'', Value = 41\<rparr>
   \<and> fst (Next (n0_at 41) ''n0'') = Inr \<lparr>ID = 1, DeletedAt = False, Name = ''n0'', Value = 42\<rparr>
   \<and> tx_First (snd (Next (n0_at 41) ''n0'')) ''n0'' =
       Inr \<lparr>ID = 1, DeletedAt = False, Name = ''n0'', Value = 42\<rparr>"
proof -
  have wf: "wf_table (n0_at 41)"
    by (rule wf_table_n0_at)
  have first: "tx_First (n0_at 41) ''n0'' = Inr \<lparr>ID = 1, DeletedAt = False, Name = ''n0'', Value = 41\<rparr>"
    by (simp add: n0_at_def tx_First_def)
  from Next_increments [OF wf first] wf first show ?thesis
    by simp
qed

text \<open>
  C3: \<open>Next\<close> fails with \<open>NotFound\<close> exactly when no active counter named \<open>n\<close> exists, that
  is when every row named \<open>n\<close> (there is none if it was never created) carries the deleted
  marker; \<open>Next\<close> fails in no other way, and a failing \<open>Next\<close> leaves the table as it was.
\<close>

theorem Next_NotFound_iff:
  assumes "wf_table rows"
  shows "(fst (Next rows n) = Inl NotFound \<longleftrightarrow> (\<forall>r \<in> set rows. Name r = n \<longrightarrow> DeletedAt r))
    \<and> (isl (fst (Next rows n)) \<longrightarrow> Next rows n = (Inl NotFound, rows))"
proof (cases "tx_First rows n")
  case (Inl e)
  then have "e = NotFound" "\<forall>r \<in> set rows. Name r = n \<longrightarrow> DeletedAt r"
    by (simp_all add: tx_First_Inl)
  with Inl show ?thesis
    by (simp add: Next_missing)
next
  case (Inr c)
  then have "c \<in> set rows \<and> Name c = n \<and> \<not> DeletedAt c"
    by (rule tx_First_Inr)
  moreover from assms Inr have "fst (Next rows n) = Inr (c\<lparr>Value := Value c + 1\<rparr>)"
    by (rule Next_persisted)
  ultimately show ?thesis
    by auto
qed

theorem Next_NotFound_iff_witness:
  "wf_table n0_deleted \<and> wf_table []
   \<and> Next n0_deleted ''n0'' = (Inl NotFound, n0_deleted)
   \<and> Next [] ''n0'' = (Inl NotFound, [])
   \<and> fst (Next (n0_at 0) ''n0'') \<noteq> Inl NotFound"
proof -
  have d: "fst (Next n0_deleted ''n0'') = Inl NotFound"
    using Next_NotFound_iff [OF wf_table_n0_deleted, of "''n0''"] by (simp add: n0_deleted_def)
  have e: "fst (Next [] ''n0'') = Inl NotFound"
    using Next_NotFound_iff [OF wf_table_Nil, of "''n0''"] by simp
  have a: "fst (Next (n0_at 0) ''n0'') \<noteq> Inl NotFound"
    using Next_NotFound_iff [OF wf_table_n0_at, of 0 "''n0''"] by (simp add: n0_at_def)
  from d e a show ?thesis
    using Next_NotFound_iff [OF wf_table_n0_deleted, of "''n0''"]
      Next_NotFound_iff [OF wf_table_Nil, of "''n0''"]
    by (simp add: wf_table_n0_deleted wf_table_Nil)
qed

subsection \<open>CreateCounter\<close>

text \<open>
  Creating \<open>n0\<close> and deleting it leaves a table with no active counter named \<open>n0\<close>, on which
  \<open>CreateCounter\<close> of \<open>n0\<close> nevertheless fails: the soft-deleted row still holds the name in
  the unique index.
\<close>

theorem CreateCounter_deleted_name_counterexample:
  "run [CreateCall ''n0'', DeleteCall ''n0''] [] = n0_deleted
   \<and> tx_First n0_deleted ''n0'' = Inl NotFound
   \<and> CreateCounter n0_deleted ''n0'' = (Inl DuplicateName, n0_deleted)"
  by (simp add: run_def CreateCounter_eq DeleteCounter_def tx_Delete_def tx_First_def n0_deleted_def)

text \<open>
  C4, amended: when no row named \<open>n\<close> exists, active or soft-deleted, \<open>CreateCounter\<close> succeeds
  and returns an active counter with name \<open>n\<close> and value 0, stored as the last row of the
  table; afterwards it is the only row named \<open>n\<close>, and a read by name returns it.
\<close>

theorem CreateCounter_fresh_name:
  assumes "n \<notin> Name ` set rows"
  shows "\<exists>c. CreateCounter rows n = (Inr c, rows @ [c])
    \<and> Name c = n \<and> Value c = 0 \<and> \<not> DeletedAt c
    \<and> tx_First (rows @ [c]) n = Inr c
    \<and> filter (\<lambda>r. Name r = n) (rows @ [c]) = [c]"
proof -
  let ?c = "\<lparr>ID = Suc (max_id rows), DeletedAt = False, Name = n, Value = 0\<rparr>"
  from assms have none: "\<forall>r \<in> set rows. Name r \<noteq> n"
    by auto
  then have "find (\<lambda>r. Name r = n \<and> \<not> DeletedAt r) rows = None"
    by (auto simp: find_None_iff)
  then have "find (\<lambda>r. Name r = n \<and> \<not> DeletedAt r) (rows @ [r]) =
      find (\<lambda>r. Name r = n \<and> \<not> DeletedAt r) [r]" for r
    by (induction rows) (auto split: if_splits)
  then have first: "tx_First (rows @ [?c]) n = Inr ?c"
    by (simp add: tx_First_def)
  from none have "filter (\<lambda>r. Name r = n) rows = []"
    by (simp add: filter_empty_conv)
  then have only: "filter (\<lambda>r. Name r = n) (rows @ [?c]) = [?c]"
    by simp
  from assms have "CreateCounter rows n = (Inr ?c, rows @ [?c])"
    by (simp add: CreateCounter_eq)
  with first only show ?thesis
    by (intro exI [of _ ?c]) simp
qed

theorem CreateCounter_fresh_name_witness:
  "''n1'' \<notin> Name ` set n0_deleted
   \<and> CreateCounter n0_deleted ''n1'' =
       (Inr \<lparr>ID = 2, DeletedAt = False, Name = ''n1'', Value = 0\<rparr>,
        n0_deleted @ [\<lparr>ID = 2, DeletedAt = False, Name = ''n1'', Value = 0\<rparr>])
   \<and> tx_First (snd (CreateCounter n0_deleted ''n1'')) ''n1'' =
       Inr \<lparr>ID = 2, DeletedAt = False, Name = ''n1'', Value = 0\<rparr>"
proof -
  have h: "''n1'' \<notin> Name ` set n0_deleted"
    by (simp add: n0_deleted_def)
  have eq: "CreateCounter n0_deleted ''n1'' =
      (Inr \<lparr>ID = 2, DeletedAt = False, Name = ''n1'', Value = 0\<rparr>,
       n0_deleted @ [\<lparr>ID = 2, DeletedAt = False, Name = ''n1'', Value = 0\<rparr>])"
    by (simp add: CreateCounter_eq n0_deleted_def)
  from CreateCounter_fresh_name [OF h] obtain c where
    "CreateCounter n0_deleted ''n1'' = (Inr c, n0_deleted @ [c])"
    "tx_First (n0_deleted @ [c]) ''n1'' = Inr c"
    by blast
  with eq h show ?thesis
    by simp
qed

text \<open>
  C5: for every name \<open>n\<close> for which an active counter exists, \<open>CreateCounter\<close> fails with
  \<open>DuplicateName\<close> and leaves the table as it was.
\<close>

theorem CreateCounter_duplicate:
  assumes "tx_First rows n = Inr c"
  shows "CreateCounter rows n = (Inl DuplicateName, rows)"
proof -
  from assms have "c \<in> set rows \<and> Name c = n"
    by (simp add: tx_First_Inr)
  then have "n \<in> Name ` set rows"
    by auto
  then show ?thesis
    by (simp add: CreateCounter_eq)
qed

theorem CreateCounter_duplicate_witness:
  "tx_First (n0_at 7) ''n0'' = Inr \<lparr>ID = 1, DeletedAt = False, Name = ''n0'', Value = 7\<rparr>
   \<and> CreateCounter (n0_at 7) ''n0'' = (Inl DuplicateName, n0_at 7)"
proof -
  have h: "tx_First (n0_at 7) ''n0'' = Inr \<lparr>ID = 1, DeletedAt = False, Name = ''n0'', Value = 7\<rparr>"
    by (simp add: n0_at_def tx_First_def)
  from CreateCounter_duplicate [OF h] h show ?thesis
    by simp
qed

subsection \<open>DeleteCounter\<close>




subsection \<open>The representation boundary\<close>

lemma unat_Value_wrap:
  assumes "unat (v :: 32 word) = 2 ^ 32 - 1"
  shows "v + 1 = 0" and "v + 1 < v"
proof -
  from assms show zero: "v + 1 = 0"
    by (simp add: word_unat_eq_iff unat_word_ariths)
  from assms have "0 < v"
    by (simp add: word_less_nat_alt)
  with zero show "v + 1 < v"
    by simp
qed

text \<open>
  C10: the value is an unsigned 32-bit integer and \<open>Next\<close> increments it modulo \<open>2^32\<close>: the
  value returned and persisted is \<open>(v + 1) mod 2^32\<close>; for a counter whose value is
  \<open>2^32 - 1\<close>, \<open>Next\<close> returns and persists 0, which is smaller than the value before.
\<close>

theorem Next_wraps:
  assumes "wf_table rows" and "tx_First rows n = Inr c"
  shows "\<exists>c'. fst (Next rows n) = Inr c' \<and> tx_First (snd (Next rows n)) n = Inr c'
    \<and> unat (Value c') = (unat (Value c) + 1) mod 2 ^ 32
    \<and> (unat (Value c) = 2 ^ 32 - 1 \<longrightarrow> Value c' = 0 \<and> Value c' < Value c)"
proof (intro exI conjI impI)
  let ?c' = "c\<lparr>Value := Value c + 1\<rparr>"
  from assms show "fst (Next rows n) = Inr ?c'"
    by (rule Next_persisted)
  from assms show "tx_First (snd (Next rows n)) n = Inr ?c'"
    by (rule Next_persisted)
  show "unat (Value ?c') = (unat (Value c) + 1) mod 2 ^ 32"
    by (simp add: unat_word_ariths)
  assume "unat (Value c) = 2 ^ 32 - 1"
  then show "Value ?c' = 0" and "Value ?c' < Value c"
    using unat_Value_wrap [of "Value c"] by simp_all
qed

theorem Next_wraps_witness:
  "wf_table (n0_at 4294967295)
   \<and> tx_First (n0_at 4294967295) ''n0'' =
       Inr \<lparr>ID = 1, DeletedAt = False, Name = ''n0'', Value = 4294967295\<rparr>
   \<and> fst (Next (n0_at 4294967295) ''n0'') = Inr \<lparr>ID = 1, DeletedAt = False, Name = ''n0'', Value = 0\<rparr>
   \<and> tx_First (snd (Next (n0_at 4294967295) ''n0'')) ''n0'' =
       Inr \<lparr>ID = 1, DeletedAt = False, Name = ''n0'', Value = 0\<rparr>"
proof -
  let ?c = "\<lparr>ID = 1, DeletedAt = False, Name = ''n0'', Value = 4294967295 :: 32 word\<rparr>"
  have first: "tx_First (n0_at 4294967295) ''n0'' = Inr ?c"
    by (simp add: n0_at_def tx_First_def)
  have max: "unat (Value ?c) = 2 ^ 32 - 1"
    by simp
  from Next_wraps [OF wf_table_n0_at first] max obtain c' where
    c': "fst (Next (n0_at 4294967295) ''n0'') = Inr c'"
      "tx_First (snd (Next (n0_at 4294967295) ''n0'')) ''n0'' = Inr c'"
      "Value c' = 0"
    by blast
  have "fst (Next (n0_at 4294967295) ''n0'') = Inr (?c\<lparr>Value := Value ?c + 1\<rparr>)"
    using wf_table_n0_at first by (rule Next_persisted)
  with c'(1,3) have "c' = \<lparr>ID = 1, DeletedAt = False, Name = ''n0'', Value = 0\<rparr>"
    by auto
  with c' first show ?thesis
    by (simp add: wf_table_n0_at)
qed

subsection \<open>Calls on one name and the rows of another\<close>

lemma tx_First_filter:
  "tx_First rows b = tx_First (filter (\<lambda>r. Name r = b) rows) b"
proof -
  have "find (\<lambda>r. Name r = b \<and> \<not> DeletedAt r) rows =
      find (\<lambda>r. Name r = b \<and> \<not> DeletedAt r) (filter (\<lambda>r. Name r = b) rows)"
    by (induction rows) simp_all
  then show ?thesis
    by (simp only: tx_First_def)
qed

lemma filter_map_other:
  assumes "\<And>r. Name (f r) = Name r" and "\<And>r. Name r = b \<Longrightarrow> f r = r"
  shows "filter (\<lambda>r. Name r = b) (map f rows) = filter (\<lambda>r. Name r = b) rows"
  by (induction rows) (simp_all add: assms)

lemma CreateCounter_frame:
  "a \<noteq> b \<Longrightarrow>
    filter (\<lambda>r. Name r = b) (snd (CreateCounter rows a)) = filter (\<lambda>r. Name r = b) rows"
  by (simp add: CreateCounter_eq)

lemma DeleteCounter_frame:
  assumes "a \<noteq> b"
  shows "filter (\<lambda>r. Name r = b) (snd (DeleteCounter rows a)) = filter (\<lambda>r. Name r = b) rows"
  unfolding DeleteCounter_def tx_Delete_rows
  using assms by (intro filter_map_other) simp_all

lemma Next_frame:
  assumes "wf_table rows" and "a \<noteq> b"
  shows "filter (\<lambda>r. Name r = b) (snd (Next rows a)) = filter (\<lambda>r. Name r = b) rows"
proof (cases "tx_First rows a")
  case (Inl e)
  then show ?thesis
    by (simp add: Next_missing)
next
  case (Inr c)
  with assms(1) have "snd (Next rows a) =
      map (\<lambda>r. if Name r = a then r\<lparr>Value := Value r + 1\<rparr> else r) rows"
    by (simp add: Next_active)
  moreover have "filter (\<lambda>r. Name r = b)
      (map (\<lambda>r. if Name r = a then r\<lparr>Value := Value r + 1\<rparr> else r) rows) =
      filter (\<lambda>r. Name r = b) rows"
    using assms(2) by (intro filter_map_other) simp_all
  ultimately show ?thesis
    by (simp only:)
qed

lemma exec_frame:
  assumes "wf_table rows" and "c \<notin> {CreateCall b, NextCall b, DeleteCall b}"
  shows "filter (\<lambda>r. Name r = b) (exec c rows) = filter (\<lambda>r. Name r = b) rows"
  using assms by (cases c) (simp_all add: CreateCounter_frame Next_frame DeleteCounter_frame)

lemma tx_First_frame:
  "filter (\<lambda>r. Name r = b) rows' = filter (\<lambda>r. Name r = b) rows \<Longrightarrow>
    tx_First rows' b = tx_First rows b"
  by (metis tx_First_filter)

text \<open>
  C7: for distinct names \<open>a\<close> and \<open>b\<close>, \<open>CreateCounter\<close>, \<open>Next\<close> and \<open>DeleteCounter\<close> applied to
  \<open>a\<close> leave the rows named \<open>b\<close> as they were (whether one exists, its key, deleted marker,
  name and value), and so also the result of reading \<open>b\<close>.
\<close>

theorem other_names_untouched:
  assumes "wf_table rows" and "a \<noteq> b"
  shows "filter (\<lambda>r. Name r = b) (snd (CreateCounter rows a)) = filter (\<lambda>r. Name r = b) rows
    \<and> filter (\<lambda>r. Name r = b) (snd (Next rows a)) = filter (\<lambda>r. Name r = b) rows
    \<and> filter (\<lambda>r. Name r = b) (snd (DeleteCounter rows a)) = filter (\<lambda>r. Name r = b) rows
    \<and> tx_First (snd (CreateCounter rows a)) b = tx_First rows b
    \<and> tx_First (snd (Next rows a)) b = tx_First rows b
    \<and> tx_First (snd (DeleteCounter rows a)) b = tx_First rows b"
  using assms
  by (intro conjI tx_First_frame CreateCounter_frame Next_frame DeleteCounter_frame)

theorem other_names_untouched_witness:
  "wf_table n0_n1 \<and> ''n0'' \<noteq> ''n1''
   \<and> tx_First n0_n1 ''n1'' = Inr \<lparr>ID = 2, DeletedAt = False, Name = ''n1'', Value = 8\<rparr>
   \<and> tx_First (snd (CreateCounter n0_n1 ''n0'')) ''n1'' =
       Inr \<lparr>ID = 2, DeletedAt = False, Name = ''n1'', Value = 8\<rparr>
   \<and> tx_First (snd (Next n0_n1 ''n0'')) ''n1'' =
       Inr \<lparr>ID = 2, DeletedAt = False, Name = ''n1'', Value = 8\<rparr>
   \<and> tx_First (snd (DeleteCounter n0_n1 ''n0'')) ''n1'' =
       Inr \<lparr>ID = 2, DeletedAt = False, Name = ''n1'', Value = 8\<rparr>"
proof -
  have ne: "''n0'' \<noteq> ''n1''"
    by simp
  have first: "tx_First n0_n1 ''n1'' = Inr \<lparr>ID = 2, DeletedAt = False, Name = ''n1'', Value = 8\<rparr>"
    by (simp add: n0_n1_def tx_First_def)
  from other_names_untouched [OF wf_table_n0_n1 ne] first wf_table_n0_n1 show ?thesis
    by simp
qed

subsection \<open>Next after DeleteCounter\<close>

lemma DeleteCounter_ok: "fst (DeleteCounter rows n) = None"
  by (simp add: DeleteCounter_def tx_Delete_def)

lemma DeleteCounter_inactive: "tx_First (snd (DeleteCounter rows n)) n = Inl NotFound"
proof -
  have "\<forall>r \<in> set (snd (DeleteCounter rows n)). Name r = n \<longrightarrow> DeletedAt r"
    unfolding DeleteCounter_def tx_Delete_rows by (simp only: set_map ball_simps) simp
  then show ?thesis
    by (simp only: tx_First_Inl simp_thms)
qed

lemma CreateCounter_existing:
  "n \<in> Name ` set rows \<Longrightarrow> CreateCounter rows n = (Inl DuplicateName, rows)"
  by (simp add: CreateCounter_eq)

lemma tx_First_NotFound: "tx_First rows n = Inl e \<Longrightarrow> e = NotFound"
  by (simp add: tx_First_Inl)

lemma inactive_exec:
  assumes "wf_table rows" and "tx_First rows n = Inl NotFound" and "c \<noteq> CreateCall n"
  shows "tx_First (exec c rows) n = Inl NotFound"
proof (cases "c \<in> {NextCall n, DeleteCall n}")
  case True
  with assms(2) show ?thesis
    by (auto simp: Next_missing DeleteCounter_inactive)
next
  case False
  with assms(3) have "c \<notin> {CreateCall n, NextCall n, DeleteCall n}"
    by simp
  with assms(1) have "filter (\<lambda>r. Name r = n) (exec c rows) = filter (\<lambda>r. Name r = n) rows"
    by (rule exec_frame)
  then have "tx_First (exec c rows) n = tx_First rows n"
    by (rule tx_First_frame)
  with assms(2) show ?thesis
    by simp
qed

lemma inactive_run:
  assumes "wf_table rows" and "tx_First rows n = Inl NotFound" and "CreateCall n \<notin> set cs"
  shows "tx_First (run cs rows) n = Inl NotFound"
  using assms unfolding run_def
proof (induction cs arbitrary: rows)
  case Nil
  then show ?case by simp
next
  case (Cons c cs)
  from Cons.prems(3) have "c \<noteq> CreateCall n"
    by auto
  with Cons.prems have "wf_table (exec c rows)" "tx_First (exec c rows) n = Inl NotFound"
    by (simp_all add: wf_table_exec inactive_exec)
  with Cons.prems(3) have "tx_First (fold exec cs (exec c rows)) n = Inl NotFound"
    by (intro Cons.IH) simp_all
  then show ?case by simp
qed

lemma names_exec:
  assumes "wf_table rows"
  shows "Name ` set rows \<subseteq> Name ` set (exec c rows)"
proof -
  have keep: "Name ` set (map f rows) = Name ` set rows" if "\<And>r. Name (f r) = Name r" for f
  proof -
    from that have "map Name (map f rows) = map Name rows"
      by simp
    then have "set (map Name (map f rows)) = set (map Name rows)"
      by (rule arg_cong)
    then show ?thesis
      by (simp only: set_map)
  qed
  show ?thesis
  proof (cases c)
    case (CreateCall a)
    then show ?thesis
      by (auto simp: CreateCounter_eq)
  next
    case (NextCall a)
    show ?thesis
    proof (cases "tx_First rows a")
      case (Inl e)
      with NextCall show ?thesis
        by (simp add: Next_missing)
    next
      case (Inr r)
      with assms have "snd (Next rows a) =
          map (\<lambda>r. if Name r = a then r\<lparr>Value := Value r + 1\<rparr> else r) rows"
        by (simp add: Next_active)
      moreover have "Name ` set (map (\<lambda>r. if Name r = a then r\<lparr>Value := Value r + 1\<rparr> else r) rows) =
          Name ` set rows"
        by (rule keep) simp
      ultimately have "Name ` set (snd (Next rows a)) = Name ` set rows"
        by (simp only:)
      with NextCall show ?thesis
        by (simp only: exec.simps subset_refl)
    qed
  next
    case (DeleteCall a)
    have "Name ` set (map (\<lambda>r. if Name r = a then r\<lparr>DeletedAt := True\<rparr> else r) rows) =
        Name ` set rows"
      by (rule keep) simp
    then have "Name ` set (snd (DeleteCounter rows a)) = Name ` set rows"
      by (simp only: DeleteCounter_def tx_Delete_rows)
    with DeleteCall show ?thesis
      by (simp only: exec.simps subset_refl)
  qed
qed

lemma deleted_exec:
  assumes "wf_table rows" and "n \<in> Name ` set rows" and "tx_First rows n = Inl NotFound"
  shows "tx_First (exec c rows) n = Inl NotFound"
proof (cases "c = CreateCall n")
  case True
  with assms(2,3) show ?thesis
    by (simp add: CreateCounter_existing)
next
  case False
  with assms(1,3) show ?thesis
    by (rule inactive_exec)
qed

lemma deleted_run:
  assumes "wf_table rows" and "n \<in> Name ` set rows" and "tx_First rows n = Inl NotFound"
  shows "tx_First (run cs rows) n = Inl NotFound"
  using assms unfolding run_def
proof (induction cs arbitrary: rows)
  case Nil
  then show ?case by simp
next
  case (Cons c cs)
  from Cons.prems have wf1: "wf_table (exec c rows)"
    and first1: "tx_First (exec c rows) n = Inl NotFound"
    by (simp_all add: wf_table_exec deleted_exec)
  from Cons.prems(1,2) have "n \<in> Name ` set (exec c rows)"
    using names_exec [of rows c] by blast
  with wf1 have "tx_First (fold exec cs (exec c rows)) n = Inl NotFound"
    using first1 by (rule Cons.IH)
  then show ?case by simp
qed

text \<open>
  On the empty table \<open>DeleteCounter\<close> of \<open>n0\<close> succeeds; a \<open>CreateCounter\<close> of \<open>n0\<close> after it
  succeeds as well, and the \<open>Next\<close> on \<open>n0\<close> that follows returns the value 1: a \<open>Next\<close> after
  a successful delete that does not fail.
\<close>

theorem DeleteCounter_then_create_Next_counterexample:
  "DeleteCounter [] ''n0'' = (None, [])
   \<and> fst (Next (run [CreateCall ''n0''] (snd (DeleteCounter [] ''n0''))) ''n0'') =
       Inr \<lparr>ID = 1, DeletedAt = False, Name = ''n0'', Value = 1\<rparr>"
  by (simp add: DeleteCounter_def tx_Delete_def run_def CreateCounter_eq Next_def tx_First_def
      tx_Save_def Let_def)

text \<open>
  C6, amended: \<open>DeleteCounter\<close> returns no error, whether or not an active counter named \<open>n\<close>
  exists; the \<open>Next\<close> on \<open>n\<close> that follows fails with \<open>NotFound\<close> and changes nothing, and so does
  every later \<open>Next\<close> on \<open>n\<close>, after any calls on any names, provided that a row named \<open>n\<close>
  existed before the delete (a \<open>CreateCounter\<close> of \<open>n\<close> then fails) or that no \<open>CreateCounter\<close>
  of \<open>n\<close> is among those calls.
\<close>

theorem DeleteCounter_then_Next:
  assumes "wf_table rows"
  shows "fst (DeleteCounter rows n) = None
    \<and> Next (snd (DeleteCounter rows n)) n = (Inl NotFound, snd (DeleteCounter rows n))
    \<and> (CreateCall n \<notin> set cs \<or> n \<in> Name ` set rows \<longrightarrow>
         fst (Next (run cs (snd (DeleteCounter rows n))) n) = Inl NotFound)"
proof (intro conjI impI)
  let ?rows' = "snd (DeleteCounter rows n)"
  show "fst (DeleteCounter rows n) = None"
    by (rule DeleteCounter_ok)
  show "Next ?rows' n = (Inl NotFound, ?rows')"
    by (simp add: Next_missing DeleteCounter_inactive)
  from assms have wf': "wf_table ?rows'"
    by (rule wf_table_DeleteCounter)
  assume "CreateCall n \<notin> set cs \<or> n \<in> Name ` set rows"
  then have "tx_First (run cs ?rows') n = Inl NotFound"
  proof
    assume "CreateCall n \<notin> set cs"
    with wf' show ?thesis
      by (intro inactive_run DeleteCounter_inactive)
  next
    assume "n \<in> Name ` set rows"
    with assms have "n \<in> Name ` set ?rows'"
      using names_exec [of rows "DeleteCall n"] by auto
    with wf' show ?thesis
      by (intro deleted_run DeleteCounter_inactive)
  qed
  then show "fst (Next (run cs ?rows') n) = Inl NotFound"
    by (simp add: Next_missing)
qed

theorem DeleteCounter_then_Next_witness:
  "wf_table [] \<and> wf_table n0_n1
   \<and> DeleteCounter [] ''n0'' = (None, [])
   \<and> CreateCall ''n0'' \<notin> set [NextCall ''n0'', CreateCall ''n1'', NextCall ''n1'']
   \<and> fst (Next (run [NextCall ''n0'', CreateCall ''n1'', NextCall ''n1'']
         (snd (DeleteCounter [] ''n0''))) ''n0'') = Inl NotFound
   \<and> ''n0'' \<in> Name ` set n0_n1
   \<and> fst (DeleteCounter n0_n1 ''n0'') = None
   \<and> fst (Next (snd (DeleteCounter n0_n1 ''n0'')) ''n0'') = Inl NotFound
   \<and> fst (Next (run [NextCall ''n1'', CreateCall ''n0'', NextCall ''n0'', DeleteCall ''n1'']
         (snd (DeleteCounter n0_n1 ''n0''))) ''n0'') = Inl NotFound"
proof -
  have cs: "CreateCall ''n0'' \<notin> set [NextCall ''n0'', CreateCall ''n1'', NextCall ''n1'']"
    by simp
  have named: "''n0'' \<in> Name ` set n0_n1"
    by (simp add: n0_n1_def)
  have e: "DeleteCounter [] ''n0'' = (None, [])"
    by (simp add: DeleteCounter_def tx_Delete_def)
  from DeleteCounter_then_Next [OF wf_table_Nil, of "''n0''"
      "[NextCall ''n0'', CreateCall ''n1'', NextCall ''n1'']"] cs
  have absent: "fst (Next (run [NextCall ''n0'', CreateCall ''n1'', NextCall ''n1'']
      (snd (DeleteCounter [] ''n0''))) ''n0'') = Inl NotFound"
    by blast
  from DeleteCounter_then_Next [OF wf_table_n0_n1, of "''n0''"
      "[NextCall ''n1'', CreateCall ''n0'', NextCall ''n0'', DeleteCall ''n1'']"] named
  have present: "fst (DeleteCounter n0_n1 ''n0'') = None"
    "fst (Next (snd (DeleteCounter n0_n1 ''n0'')) ''n0'') = Inl NotFound"
    "fst (Next (run [NextCall ''n1'', CreateCall ''n0'', NextCall ''n0'', DeleteCall ''n1'']
      (snd (DeleteCounter n0_n1 ''n0''))) ''n0'') = Inl NotFound"
    by simp_all
  from cs named e absent present wf_table_Nil wf_table_n0_n1 show ?thesis
    by (intro conjI)
qed

subsection \<open>The value of a counter along a sequence of calls\<close>

lemma active_exec:
  assumes "wf_table rows" and "tx_First rows b = Inr c" and "tx_First (exec op rows) b = Inr c'"
  shows "c' = c\<lparr>Value := Value c + (if op = NextCall b then 1 else 0)\<rparr>"
proof -
  from assms(2) have c: "c \<in> set rows \<and> Name c = b"
    by (simp add: tx_First_Inr)
  then have named: "b \<in> Name ` set rows"
    by auto
  consider "op = CreateCall b" | "op = NextCall b" | "op = DeleteCall b"
    | "op \<notin> {CreateCall b, NextCall b, DeleteCall b}"
    by auto
  then show ?thesis
  proof cases
    case 1
    with named assms(2,3) show ?thesis
      by (simp add: CreateCounter_existing)
  next
    case 2
    with assms(3) Next_persisted(2) [OF assms(1,2)] show ?thesis
      by simp
  next
    case 3
    with assms(3) show ?thesis
      by (simp add: DeleteCounter_inactive)
  next
    case 4
    with assms(1) have "filter (\<lambda>r. Name r = b) (exec op rows) = filter (\<lambda>r. Name r = b) rows"
      by (rule exec_frame)
    then have "tx_First (exec op rows) b = tx_First rows b"
      by (rule tx_First_frame)
    with assms(2,3) 4 show ?thesis
      by auto
  qed
qed

lemma active_run:
  assumes "wf_table rows" and "tx_First rows b = Inr c" and "tx_First (run cs rows) b = Inr c'"
  shows "c' = c\<lparr>Value := Value c + word_of_nat (count_list cs (NextCall b))\<rparr>"
  using assms unfolding run_def
proof (induction cs arbitrary: rows c)
  case Nil
  then show ?case by simp
next
  case (Cons op cs)
  from Cons.prems(1) have wf1: "wf_table (exec op rows)"
    by (rule wf_table_exec)
  from Cons.prems(3) have last: "tx_First (fold exec cs (exec op rows)) b = Inr c'"
    by simp
  show ?case
  proof (cases "tx_First (exec op rows) b")
    case (Inl e)
    then have "tx_First (exec op rows) b = Inl NotFound"
      by (simp add: tx_First_Inl)
    moreover from Cons.prems(2) have "b \<in> Name ` set rows"
      by (auto dest: tx_First_Inr)
    with Cons.prems(1) have "b \<in> Name ` set (exec op rows)"
      using names_exec [of rows op] by blast
    ultimately have "tx_First (run cs (exec op rows)) b = Inl NotFound"
      using wf1 by (intro deleted_run)
    with last show ?thesis
      by (simp add: run_def)
  next
    case (Inr c1)
    with Cons.prems(1,2) have c1: "c1 = c\<lparr>Value := Value c + (if op = NextCall b then 1 else 0)\<rparr>"
      by (rule active_exec)
    from wf1 Inr last have "c' = c1\<lparr>Value := Value c1 + word_of_nat (count_list cs (NextCall b))\<rparr>"
      by (rule Cons.IH)
    with c1 show ?thesis
      by (simp add: algebra_simps)
  qed
qed

lemma unat_Value_add:
  "unat (v :: 32 word) + k < 2 ^ 32 \<Longrightarrow> unat (v + word_of_nat k) = unat v + k"
  by (simp add: unat_word_ariths unat_of_nat mod_simps)

text \<open>
  The table holding \<open>n0\<close> with any value \<open>k mod 2^32\<close> is reached from the empty table by
  creating \<open>n0\<close> and calling \<open>Next\<close> on it \<open>k\<close> times.
\<close>

lemma Next_n0_at: "Next (n0_at v) ''n0'' =
    (Inr \<lparr>ID = 1, DeletedAt = False, Name = ''n0'', Value = v + 1\<rparr>, n0_at (v + 1))"
  by (simp add: n0_at_def Next_def tx_First_def tx_Save_def Let_def)

lemma n0_at_reachable:
  "run (CreateCall ''n0'' # replicate k (NextCall ''n0'')) [] = n0_at (word_of_nat k)"
proof (induction k)
  case 0
  show ?case
    by (simp add: run_def CreateCounter_eq n0_at_def)
next
  case (Suc k)
  have "run (CreateCall ''n0'' # replicate (Suc k) (NextCall ''n0'')) [] =
      exec (NextCall ''n0'') (run (CreateCall ''n0'' # replicate k (NextCall ''n0'')) [])"
    unfolding run_def replicate_Suc [of k] replicate_append_same [symmetric] by simp
  with Suc show ?case
    by (simp add: Next_n0_at add.commute)
qed

lemma n0_at_max_reachable:
  "run (CreateCall ''n0'' # replicate 4294967295 (NextCall ''n0'')) [] = n0_at 4294967295"
  using n0_at_reachable [of 4294967295] by (simp only: of_nat_numeral)

text \<open>
  At the value \<open>2^32 - 1\<close> a call of \<open>Next\<close> leaves the counter active with value 0: the
  persisted value of an active counter became smaller.
\<close>

theorem value_decreases_at_boundary_counterexample:
  "tx_First (n0_at 4294967295) ''n0'' =
     Inr \<lparr>ID = 1, DeletedAt = False, Name = ''n0'', Value = 4294967295\<rparr>
   \<and> tx_First (run [NextCall ''n0''] (n0_at 4294967295)) ''n0'' =
     Inr \<lparr>ID = 1, DeletedAt = False, Name = ''n0'', Value = 0\<rparr>
   \<and> Value \<lparr>ID = 1, DeletedAt = False, Name = ''n0'', Value = 0\<rparr> <
     Value \<lparr>ID = 1, DeletedAt = False, Name = ''n0'', Value = 4294967295\<rparr>"
proof -
  have wrap: "(4294967295 :: 32 word) + 1 = 0"
    by simp
  have "snd (Next (n0_at 4294967295) ''n0'') = n0_at 0"
    unfolding Next_n0_at wrap by simp
  then have "run [NextCall ''n0''] (n0_at 4294967295) = n0_at 0"
    by (simp add: run_def)
  then show ?thesis
    by (simp add: n0_at_def tx_First_def)
qed

text \<open>
  C8, amended: for a counter named \<open>b\<close> that is active before and after a sequence of calls,
  the row after is the row before with the value increased, modulo \<open>2^32\<close>, by the number of
  \<open>Next\<close> calls on \<open>b\<close> in the sequence. So the value changes only via \<open>Next\<close> on \<open>b\<close>
  (without such a call the row is unchanged), and as long as the value before plus that
  number stays below \<open>2^32\<close> the value after is exactly their sum and not smaller than the
  value before.
\<close>

theorem value_changes_only_by_Next:
  assumes "wf_table rows" and "tx_First rows b = Inr c" and "tx_First (run cs rows) b = Inr c'"
  shows "c' = c\<lparr>Value := Value c + word_of_nat (count_list cs (NextCall b))\<rparr>
    \<and> (NextCall b \<notin> set cs \<longrightarrow> c' = c)
    \<and> (unat (Value c) + count_list cs (NextCall b) < 2 ^ 32 \<longrightarrow>
         unat (Value c') = unat (Value c) + count_list cs (NextCall b) \<and> Value c \<le> Value c')"
proof (intro conjI impI)
  from assms show eq: "c' = c\<lparr>Value := Value c + word_of_nat (count_list cs (NextCall b))\<rparr>"
    by (rule active_run)
  {
    assume "NextCall b \<notin> set cs"
    then have "count_list cs (NextCall b) = 0"
      by simp
    with eq show "c' = c"
      by simp
  }
  assume "unat (Value c) + count_list cs (NextCall b) < 2 ^ 32"
  then have "unat (Value c + word_of_nat (count_list cs (NextCall b))) =
      unat (Value c) + count_list cs (NextCall b)"
    by (rule unat_Value_add)
  with eq show u: "unat (Value c') = unat (Value c) + count_list cs (NextCall b)"
    by simp
  then show "Value c \<le> Value c'"
    by (simp add: word_le_nat_alt)
qed

theorem value_changes_only_by_Next_witness:
  "wf_table n0_n1
   \<and> tx_First n0_n1 ''n0'' = Inr \<lparr>ID = 1, DeletedAt = False, Name = ''n0'', Value = 3\<rparr>
   \<and> tx_First (run [NextCall ''n0'', NextCall ''n1'', CreateCall ''n0'', NextCall ''n0'',
         DeleteCall ''n1''] n0_n1) ''n0'' =
       Inr \<lparr>ID = 1, DeletedAt = False, Name = ''n0'', Value = 5\<rparr>
   \<and> count_list [NextCall ''n0'', NextCall ''n1'', CreateCall ''n0'', NextCall ''n0'',
         DeleteCall ''n1''] (NextCall ''n0'') = 2
   \<and> tx_First (run [NextCall ''n1'', DeleteCall ''n1''] n0_n1) ''n0'' = tx_First n0_n1 ''n0''"
proof -
  let ?c = "\<lparr>ID = 1, DeletedAt = False, Name = ''n0'', Value = 3 :: 32 word\<rparr>"
  let ?cs = "[NextCall ''n0'', NextCall ''n1'', CreateCall ''n0'', NextCall ''n0'', DeleteCall ''n1'']"
  have first: "tx_First n0_n1 ''n0'' = Inr ?c"
    by (simp add: n0_n1_def tx_First_def)
  have last: "tx_First (run ?cs n0_n1) ''n0'' = Inr (?c\<lparr>Value := 5\<rparr>)"
    by (simp add: run_def n0_n1_def Next_def tx_First_def tx_Save_def CreateCounter_def
        tx_Create_def DeleteCounter_def tx_Delete_def Let_def)
  have other: "tx_First (run [NextCall ''n1'', DeleteCall ''n1''] n0_n1) ''n0'' = Inr ?c"
    by (simp add: run_def n0_n1_def Next_def tx_First_def tx_Save_def DeleteCounter_def
        tx_Delete_def Let_def)
  from value_changes_only_by_Next [OF wf_table_n0_n1 first last]
    value_changes_only_by_Next [OF wf_table_n0_n1 first other]
    first last other wf_table_n0_n1
  show ?thesis
    by simp
qed

subsection \<open>Sequential calls of Next\<close>

lemma Next_seq_results:
  assumes "wf_table rows" and "tx_First rows n = Inr c"
  shows "fst (Next_seq k rows n) =
    map (\<lambda>i. Inr (c\<lparr>Value := Value c + word_of_nat (Suc i)\<rparr>)) [0..<k]"
  using assms
proof (induction k arbitrary: rows c)
  case 0
  then show ?case by simp
next
  case (Suc k)
  let ?c1 = "c\<lparr>Value := Value c + 1\<rparr>"
  let ?rows1 = "snd (Next rows n)"
  from Suc.prems have res: "fst (Next rows n) = Inr ?c1"
    and first1: "tx_First ?rows1 n = Inr ?c1"
    by (rule Next_persisted)+
  from Suc.prems(1) have "wf_table ?rows1"
    by (rule wf_table_Next)
  then have "fst (Next_seq k ?rows1 n) =
      map (\<lambda>i. Inr (?c1\<lparr>Value := Value ?c1 + word_of_nat (Suc i)\<rparr>)) [0..<k]"
    using first1 by (rule Suc.IH)
  then have "fst (Next_seq (Suc k) rows n) =
      Inr ?c1 # map (\<lambda>i. Inr (?c1\<lparr>Value := Value ?c1 + word_of_nat (Suc i)\<rparr>)) [0..<k]"
    using res by (simp add: case_prod_unfold)
  also have "\<dots> = map (\<lambda>i. Inr (c\<lparr>Value := Value c + word_of_nat (Suc i)\<rparr>)) [0..<Suc k]"
    unfolding map_upt_Suc by (simp add: add.assoc add.commute)
  finally show ?case .
qed

lemma CreateCounter_Inr:
  assumes "CreateCounter rows n = (Inr c, rows1)"
  shows "Value c = 0" and "tx_First rows1 n = Inr c"
proof -
  from assms have fresh: "n \<notin> Name ` set rows"
    by (auto simp: CreateCounter_eq split: if_splits)
  with assms show "Value c = 0"
    by (auto simp: CreateCounter_eq)
  from fresh have none: "\<forall>r \<in> set rows. Name r \<noteq> n"
    by auto
  then have "find (\<lambda>r. Name r = n \<and> \<not> DeletedAt r) rows = None"
    by (auto simp: find_None_iff)
  then have "find (\<lambda>r. Name r = n \<and> \<not> DeletedAt r) (rows @ [r]) =
      find (\<lambda>r. Name r = n \<and> \<not> DeletedAt r) [r]" for r
    by (induction rows) (auto split: if_splits)
  with assms fresh show "tx_First rows1 n = Inr c"
    by (auto simp: CreateCounter_eq tx_First_def)
qed

lemma values_of_fresh:
  assumes "wf_table rows" and "CreateCounter rows n = (Inr c, rows1)"
  shows "values_of (fst (Next_seq N rows1 n)) =
    map (\<lambda>i. Inr (unat (word_of_nat (Suc i) :: 32 word))) [0..<N]"
proof -
  from assms(1) have "wf_table (snd (CreateCounter rows n))"
    by (rule wf_table_CreateCounter)
  with assms(2) have "wf_table rows1"
    by simp
  moreover from assms(2) have "tx_First rows1 n = Inr c"
    by (rule CreateCounter_Inr)
  moreover note Next_seq_results [of rows1 n c N]
  moreover from assms(2) have zero: "Value c = 0"
    by (rule CreateCounter_Inr)
  ultimately have "fst (Next_seq N rows1 n) =
      map (\<lambda>i. Inr (c\<lparr>Value := Value c + word_of_nat (Suc i)\<rparr>)) [0..<N]"
    by simp
  with zero show ?thesis
    by (simp add: values_of_def)
qed

text \<open>
  C2, amended: for a freshly created counter and every \<open>N < 2^32\<close>, \<open>N\<close> sequential calls of
  \<open>Next\<close> all succeed and return the values \<open>1, 2, ..., N\<close> in call order; no two results are
  equal.
\<close>

theorem Next_seq_fresh:
  assumes "wf_table rows" and "CreateCounter rows n = (Inr c, rows1)" and "N < 2 ^ 32"
  shows "values_of (fst (Next_seq N rows1 n)) = map Inr [1..<Suc N]
    \<and> distinct (fst (Next_seq N rows1 n))"
proof -
  have "unat (word_of_nat (Suc i) :: 32 word) = Suc i" if "i < N" for i
    using that assms(3) by (simp add: unat_of_nat del: of_nat_Suc)
  then have "map (\<lambda>i. Inr (unat (word_of_nat (Suc i) :: 32 word))) [0..<N] =
      (map (\<lambda>i. Inr (Suc i)) [0..<N] :: (error + nat) list)"
    by simp
  also have "\<dots> = map Inr (map Suc [0..<N])"
    by simp
  also have "\<dots> = map Inr [1..<Suc N]"
    by (simp only: map_Suc_upt One_nat_def)
  finally have vals: "values_of (fst (Next_seq N rows1 n)) = map Inr [1..<Suc N]"
    using values_of_fresh [OF assms(1,2)] by simp
  have "distinct (map Inr [1..<Suc N] :: (error + nat) list)"
    by (simp add: distinct_map)
  with vals have "distinct (values_of (fst (Next_seq N rows1 n)))"
    by simp
  then have "distinct (fst (Next_seq N rows1 n))"
    by (simp add: values_of_def distinct_map)
  with vals show ?thesis
    by simp
qed

theorem Next_seq_fresh_witness:
  "wf_table []
   \<and> CreateCounter [] ''n0'' =
       (Inr \<lparr>ID = 1, DeletedAt = False, Name = ''n0'', Value = 0\<rparr>, n0_at 0)
   \<and> (10 :: nat) < 2 ^ 32
   \<and> values_of (fst (Next_seq 10 (n0_at 0) ''n0'')) =
       [Inr 1, Inr 2, Inr 3, Inr 4, Inr 5, Inr 6, Inr 7, Inr 8, Inr 9, Inr 10]"
proof -
  have create: "CreateCounter [] ''n0'' =
      (Inr \<lparr>ID = 1, DeletedAt = False, Name = ''n0'', Value = 0\<rparr>, n0_at 0)"
    by (simp add: CreateCounter_eq n0_at_def)
  have small: "(10 :: nat) < 2 ^ 32"
    by simp
  have "map Inr [1..<Suc 10] =
      ([Inr 1, Inr 2, Inr 3, Inr 4, Inr 5, Inr 6, Inr 7, Inr 8, Inr 9, Inr 10] :: (error + nat) list)"
    by (simp add: upt_rec)
  with Next_seq_fresh [OF wf_table_Nil create small] create small wf_table_Nil show ?thesis
    by simp
qed

text \<open>
  From \<open>2^32\<close> calls on, the values returned are no longer \<open>1, ..., N\<close>: the call number
  \<open>2^32\<close> returns 0, and the next one returns 1 a second time.
\<close>

lemma values_of_wrap:
  assumes "wf_table rows" and "CreateCounter rows n = (Inr c, rows1)" and "2 ^ 32 \<le> N"
  shows "values_of (fst (Next_seq N rows1 n)) \<noteq> map Inr [1..<Suc N]"
proof
  let ?i = "2 ^ 32 - 1 :: nat"
  from assms(3) have i: "?i < N"
    by simp
  assume "values_of (fst (Next_seq N rows1 n)) = map Inr [1..<Suc N]"
  with values_of_fresh [OF assms(1,2), of N]
  have "map (\<lambda>i. Inr (unat (word_of_nat (Suc i) :: 32 word))) [0..<N] =
      (map Inr [1..<Suc N] :: (error + nat) list)"
    by simp
  then have "map (\<lambda>i. Inr (unat (word_of_nat (Suc i) :: 32 word))) [0..<N] ! ?i =
      (map Inr [1..<Suc N] ! ?i :: error + nat)"
    by (rule arg_cong)
  moreover from i have "map (\<lambda>i. Inr (unat (word_of_nat (Suc i) :: 32 word))) [0..<N] ! ?i =
      (Inr (unat (word_of_nat (Suc ?i) :: 32 word)) :: error + nat)"
    by (subst nth_map_upt) simp_all
  moreover from i have "(map Inr [1..<Suc N] ! ?i :: error + nat) = Inr (1 + ?i)"
    by (subst nth_map_upt) simp_all
  moreover have "unat (word_of_nat (Suc ?i) :: 32 word) = 0"
    by simp
  ultimately show False
    by simp
qed

lemma Next_seq_repeats:
  assumes "wf_table rows" and "tx_First rows n = Inr c" and "2 ^ 32 < N"
  shows "\<not> distinct (fst (Next_seq N rows n))"
proof
  let ?g = "\<lambda>i. Inr (c\<lparr>Value := Value c + word_of_nat (Suc i)\<rparr>) :: error + Counter"
  let ?j = "2 ^ 32 :: nat"
  assume "distinct (fst (Next_seq N rows n))"
  with Next_seq_results [OF assms(1,2), of N] have "distinct (map ?g [0..<N])"
    by simp
  moreover from assms(3) have "0 < length (map ?g [0..<N])" "?j < length (map ?g [0..<N])"
    by simp_all
  ultimately have "map ?g [0..<N] ! 0 \<noteq> map ?g [0..<N] ! ?j"
    by (simp only: nth_eq_iff_index_eq) simp
  moreover from assms(3) have "map ?g [0..<N] ! 0 = ?g 0"
    by (subst nth_map_upt) simp_all
  moreover from assms(3) have "map ?g [0..<N] ! ?j = ?g ?j"
    by (subst nth_map_upt) simp_all
  moreover have "(word_of_nat (Suc ?j) :: 32 word) = word_of_nat (Suc 0)"
    by simp
  then have "?g ?j = ?g 0"
    by (simp only:)
  ultimately show False
    by (simp only: simp_thms)
qed

theorem Next_seq_wraps_counterexample:
  "CreateCounter [] ''n0'' =
     (Inr \<lparr>ID = 1, DeletedAt = False, Name = ''n0'', Value = 0\<rparr>, n0_at 0)
   \<and> values_of (fst (Next_seq (2 ^ 32) (n0_at 0) ''n0'')) \<noteq> map Inr [1..<Suc (2 ^ 32)]
   \<and> values_of (fst (Next_seq (2 ^ 32 + 1) (n0_at 0) ''n0'')) \<noteq> map Inr [1..<Suc (2 ^ 32 + 1)]
   \<and> \<not> distinct (fst (Next_seq (2 ^ 32 + 1) (n0_at 0) ''n0''))"
proof (intro conjI)
  show create: "CreateCounter [] ''n0'' =
      (Inr \<lparr>ID = 1, DeletedAt = False, Name = ''n0'', Value = 0\<rparr>, n0_at 0)"
    by (simp add: CreateCounter_eq n0_at_def)
  have le: "(2 :: nat) ^ 32 \<le> 2 ^ 32 + 1" and less: "(2 :: nat) ^ 32 < 2 ^ 32 + 1"
    by simp_all
  from wf_table_Nil create order_refl
  show "values_of (fst (Next_seq (2 ^ 32) (n0_at 0) ''n0'')) \<noteq> map Inr [1..<Suc (2 ^ 32)]"
    by (rule values_of_wrap)
  from wf_table_Nil create le
  show "values_of (fst (Next_seq (2 ^ 32 + 1) (n0_at 0) ''n0'')) \<noteq> map Inr [1..<Suc (2 ^ 32 + 1)]"
    by (rule values_of_wrap)
  have "tx_First (n0_at 0) ''n0'' = Inr \<lparr>ID = 1, DeletedAt = False, Name = ''n0'', Value = 0\<rparr>"
    by (simp add: n0_at_def tx_First_def)
  with wf_table_n0_at show "\<not> distinct (fst (Next_seq (2 ^ 32 + 1) (n0_at 0) ''n0''))"
    using less by (rule Next_seq_repeats)
qed

end
